theory Spec2Isabelle
  imports Main "HOL-Library.Word"
begin

unbundle bit_operations_syntax

section \<open>XXH32: the reference single-run implementation (xxhash32-ref.c)\<close>

text \<open>
  The embedding follows \<^verbatim>\<open>src/xxhash32-ref.c\<close>.

  \<^item> \<^verbatim>\<open>uint8_t\<close> and \<^verbatim>\<open>uint32_t\<close> are \<open>8 word\<close> and \<open>32 word\<close>; \<open>+\<close>, \<open>-\<close> and \<open>*\<close> wrap
    around as the C operators on \<^verbatim>\<open>uint32_t\<close> do (with a 32-bit \<^verbatim>\<open>int\<close>, so that no
    operand of type \<^verbatim>\<open>uint32_t\<close> is promoted to a signed type).
  \<^item> \<^verbatim>\<open>size_t\<close> values (\<^verbatim>\<open>length\<close>, \<^verbatim>\<open>offset\<close>, \<^verbatim>\<open>remaining\<close>) are \<open>nat\<close>: the code subtracts
    from \<^verbatim>\<open>remaining\<close> only below a guard that makes the difference non-negative, and
    the cast \<^verbatim>\<open>(uint32_t) length\<close> is \<open>of_nat\<close>, which reduces modulo \<open>2 ^ 32\<close>.
  \<^item> The input pointer is an optional byte list: \<open>None\<close> is \<^verbatim>\<open>NULL\<close>, \<open>Some p\<close> is a buffer
    whose capacity is \<open>length p\<close>.
  \<^item> What C leaves undefined is a result of its own: a byte read at an index outside the
    buffer and a shift of a 32-bit value by 32 bits or more end the run with \<open>None\<close>.
  \<^item> Every byte read and every call of \<^verbatim>\<open>XXH_rotl32\<close> is recorded in a trace, in the order
    of the source text (the operands of one expression are taken left to right), so
    that statements about which bytes are read, and with which rotation amounts, can
    be made about the run itself. The trace is kept up to the point of failure.
\<close>

type_synonym u8 = "8 word"
type_synonym u32 = "32 word"

subsection \<open>Runs: a trace and a result\<close>

datatype event = Load nat | Rotl u32

type_synonym 'a exec = "event list \<times> 'a option"

definition ret :: "'a \<Rightarrow> 'a exec" where
  "ret x = ([], Some x)"

definition bnd :: "'a exec \<Rightarrow> ('a \<Rightarrow> 'b exec) \<Rightarrow> 'b exec" where
  "bnd m f = (case m of
       (l, None) \<Rightarrow> (l, None)
     | (l, Some x) \<Rightarrow> (case f x of (l', r) \<Rightarrow> (l @ l', r)))"

definition load :: "u8 list \<Rightarrow> nat \<Rightarrow> u8 exec" where
  "load p i = ([Load i], if i < length p then Some (p ! i) else None)"

definition trace :: "'a exec \<Rightarrow> event list" where
  "trace m = fst m"

definition result :: "'a exec \<Rightarrow> 'a option" where
  "result m = snd m"

fun loads :: "event list \<Rightarrow> nat list" where
  "loads [] = []"
| "loads (Load i # es) = i # loads es"
| "loads (Rotl a # es) = loads es"

fun rotls :: "event list \<Rightarrow> u32 list" where
  "rotls [] = []"
| "rotls (Load i # es) = rotls es"
| "rotls (Rotl a # es) = a # rotls es"

subsection \<open>Constants and primitives\<close>

definition PRIME32_1 :: u32 where "PRIME32_1 = 0x9E3779B1"
definition PRIME32_2 :: u32 where "PRIME32_2 = 0x85EBCA77"
definition PRIME32_3 :: u32 where "PRIME32_3 = 0xC2B2AE3D"
definition PRIME32_4 :: u32 where "PRIME32_4 = 0x27D4EB2F"
definition PRIME32_5 :: u32 where "PRIME32_5 = 0x165667B1"

text \<open>
  \<^verbatim>\<open>return (value << amount) | (value >> (32 - amount));\<close> with \<^verbatim>\<open>amount\<close> a \<^verbatim>\<open>uint32_t\<close>:
  \<open>32 - amount\<close> is computed modulo \<open>2 ^ 32\<close>, and either shift is undefined when its
  amount is not below 32.
\<close>

definition XXH_rotl32 :: "u32 \<Rightarrow> u32 \<Rightarrow> u32 exec" where
  "XXH_rotl32 val amount =
     ([Rotl amount],
      if unat amount < 32 \<and> unat (32 - amount) < 32
      then Some (push_bit (unat amount) val OR drop_bit (unat (32 - amount)) val)
      else None)"

definition XXH_read32 :: "u8 list \<Rightarrow> nat \<Rightarrow> u32 exec" where
  "XXH_read32 p offset =
     bnd (load p (offset + 0)) (\<lambda>b0.
     bnd (load p (offset + 1)) (\<lambda>b1.
     bnd (load p (offset + 2)) (\<lambda>b2.
     bnd (load p (offset + 3)) (\<lambda>b3.
     ret ((ucast b0 :: u32)
          OR push_bit 8 (ucast b1 :: u32)
          OR push_bit 16 (ucast b2 :: u32)
          OR push_bit 24 (ucast b3 :: u32))))))"

definition XXH32_round :: "u32 \<Rightarrow> u32 \<Rightarrow> u32 exec" where
  "XXH32_round lane0 input =
     (let lane = lane0 + input * PRIME32_2 in
      bnd (XXH_rotl32 lane 13) (\<lambda>lane.
      let lane = lane * PRIME32_1 in
      ret lane))"

definition XXH32_avalanche :: "u32 \<Rightarrow> u32" where
  "XXH32_avalanche hash0 =
     (let hash = hash0 XOR drop_bit 15 hash0;
          hash = hash * PRIME32_2;
          hash = hash XOR drop_bit 13 hash;
          hash = hash * PRIME32_3;
          hash = hash XOR drop_bit 16 hash
      in hash)"

subsection \<open>The bodies of the three \<^verbatim>\<open>while\<close> statements of \<^verbatim>\<open>XXH32\<close>, and their iteration\<close>

text \<open>The body of \<^verbatim>\<open>while (remaining >= 16)\<close>, lines 118 to 122.\<close>

definition bulk_body ::
  "u8 list \<Rightarrow> u32 \<Rightarrow> u32 \<Rightarrow> u32 \<Rightarrow> u32 \<Rightarrow> nat \<Rightarrow> nat \<Rightarrow> (u32 \<times> u32 \<times> u32 \<times> u32 \<times> nat \<times> nat) exec" where
  "bulk_body p lane1 lane2 lane3 lane4 offset remaining =
     bnd (XXH_read32 p offset) (\<lambda>w.
     bnd (XXH32_round lane1 w) (\<lambda>lane1.
     let offset = offset + 4 in
     bnd (XXH_read32 p offset) (\<lambda>w.
     bnd (XXH32_round lane2 w) (\<lambda>lane2.
     let offset = offset + 4 in
     bnd (XXH_read32 p offset) (\<lambda>w.
     bnd (XXH32_round lane3 w) (\<lambda>lane3.
     let offset = offset + 4 in
     bnd (XXH_read32 p offset) (\<lambda>w.
     bnd (XXH32_round lane4 w) (\<lambda>lane4.
     let offset = offset + 4 in
     let remaining = remaining - 16 in
     ret (lane1, lane2, lane3, lane4, offset, remaining)))))))))"

text \<open>The body of \<^verbatim>\<open>while (remaining >= 4)\<close>, lines 135 to 139.\<close>

definition word_body :: "u8 list \<Rightarrow> u32 \<Rightarrow> nat \<Rightarrow> nat \<Rightarrow> (u32 \<times> nat \<times> nat) exec" where
  "word_body p hash offset remaining =
     bnd (XXH_read32 p offset) (\<lambda>w.
     let hash = hash + w * PRIME32_3 in
     bnd (XXH_rotl32 hash 17) (\<lambda>hash.
     let hash = hash * PRIME32_4 in
     let offset = offset + 4 in
     let remaining = remaining - 4 in
     ret (hash, offset, remaining)))"

text \<open>The body of \<^verbatim>\<open>while (remaining != 0)\<close>, lines 143 to 147.\<close>

definition byte_body :: "u8 list \<Rightarrow> u32 \<Rightarrow> nat \<Rightarrow> nat \<Rightarrow> (u32 \<times> nat \<times> nat) exec" where
  "byte_body p hash offset remaining =
     bnd (load p offset) (\<lambda>b.
     let hash = hash + ucast b * PRIME32_5 in
     bnd (XXH_rotl32 hash 11) (\<lambda>hash.
     let hash = hash * PRIME32_1 in
     let remaining = remaining - 1 in
     let offset = offset + 1 in
     ret (hash, offset, remaining)))"

lemma result_bnd_SomeD:
  "result (bnd m f) = Some y \<Longrightarrow> \<exists>x. result m = Some x \<and> result (f x) = Some y"
  by (cases m) (auto simp: bnd_def result_def split: option.splits prod.splits)

lemma result_ret [simp]: "result (ret x) = Some x"
  by (simp add: ret_def result_def)

lemma bulk_body_counters:
  assumes "result (bulk_body p lane1 lane2 lane3 lane4 offset remaining)
             = Some (lane1', lane2', lane3', lane4', offset', remaining')"
  shows "offset' = offset + 16 \<and> remaining' = remaining - 16"
  using assms unfolding bulk_body_def Let_def
  by (auto dest!: result_bnd_SomeD)

lemma word_body_counters:
  assumes "result (word_body p hash offset remaining) = Some (hash', offset', remaining')"
  shows "offset' = offset + 4 \<and> remaining' = remaining - 4"
  using assms unfolding word_body_def Let_def
  by (auto dest!: result_bnd_SomeD)

lemma byte_body_counters:
  assumes "result (byte_body p hash offset remaining) = Some (hash', offset', remaining')"
  shows "offset' = offset + 1 \<and> remaining' = remaining - 1"
  using assms unfolding byte_body_def Let_def
  by (auto dest!: result_bnd_SomeD)

lemma bnd_cong [fundef_cong]:
  assumes "m = m'" and "\<And>x. result m' = Some x \<Longrightarrow> f x = f' x"
  shows "bnd m f = bnd m' f'"
  using assms by (cases m') (auto simp: bnd_def result_def split: option.splits)

function bulk_loop ::
  "u8 list \<Rightarrow> u32 \<Rightarrow> u32 \<Rightarrow> u32 \<Rightarrow> u32 \<Rightarrow> nat \<Rightarrow> nat \<Rightarrow> (u32 \<times> u32 \<times> u32 \<times> u32 \<times> nat \<times> nat) exec" where
  "bulk_loop p lane1 lane2 lane3 lane4 offset remaining =
     (if remaining \<ge> 16
      then bnd (bulk_body p lane1 lane2 lane3 lane4 offset remaining)
             (\<lambda>(lane1, lane2, lane3, lane4, offset, remaining).
                bulk_loop p lane1 lane2 lane3 lane4 offset remaining)
      else ret (lane1, lane2, lane3, lane4, offset, remaining))"
  by pat_completeness auto
termination
  by (relation "measure (\<lambda>(p, lane1, lane2, lane3, lane4, offset, remaining). remaining)")
     (auto dest: bulk_body_counters)

function word_loop :: "u8 list \<Rightarrow> u32 \<Rightarrow> nat \<Rightarrow> nat \<Rightarrow> (u32 \<times> nat \<times> nat) exec" where
  "word_loop p hash offset remaining =
     (if remaining \<ge> 4
      then bnd (word_body p hash offset remaining)
             (\<lambda>(hash, offset, remaining). word_loop p hash offset remaining)
      else ret (hash, offset, remaining))"
  by pat_completeness auto
termination
  by (relation "measure (\<lambda>(p, hash, offset, remaining). remaining)")
     (auto dest: word_body_counters)

function byte_loop :: "u8 list \<Rightarrow> u32 \<Rightarrow> nat \<Rightarrow> nat \<Rightarrow> (u32 \<times> nat \<times> nat) exec" where
  "byte_loop p hash offset remaining =
     (if remaining \<noteq> 0
      then bnd (byte_body p hash offset remaining)
             (\<lambda>(hash, offset, remaining). byte_loop p hash offset remaining)
      else ret (hash, offset, remaining))"
  by pat_completeness auto
termination
  by (relation "measure (\<lambda>(p, hash, offset, remaining). remaining)")
     (auto dest: byte_body_counters)

subsection \<open>\<^verbatim>\<open>XXH32\<close>\<close>

text \<open>
  Lines 110 to 129: the choice between the four lanes and the short input, which leaves
  the accumulator \<^verbatim>\<open>hash\<close> and the two counters.
\<close>

definition XXH32_lanes :: "u8 list \<Rightarrow> nat \<Rightarrow> nat \<Rightarrow> u32 \<Rightarrow> (u32 \<times> nat \<times> nat) exec" where
  "XXH32_lanes p offset remaining seed =
     (if remaining \<ge> 16 then
        (let lane1 = seed + PRIME32_1 + PRIME32_2;
             lane2 = seed + PRIME32_2;
             lane3 = seed + 0;
             lane4 = seed - PRIME32_1
         in bnd (bulk_loop p lane1 lane2 lane3 lane4 offset remaining)
              (\<lambda>(lane1, lane2, lane3, lane4, offset, remaining).
            bnd (XXH_rotl32 lane1 1) (\<lambda>r1.
            bnd (XXH_rotl32 lane2 7) (\<lambda>r2.
            bnd (XXH_rotl32 lane3 12) (\<lambda>r3.
            bnd (XXH_rotl32 lane4 18) (\<lambda>r4.
            ret (r1 + r2 + r3 + r4, offset, remaining)))))))
      else ret (seed + PRIME32_5, offset, remaining))"

text \<open>
  Lines 131 to 148: the length is added, then the rest is consumed, first by words and
  then by bytes.
\<close>

definition XXH32_tail :: "u8 list \<Rightarrow> nat \<Rightarrow> u32 \<Rightarrow> nat \<Rightarrow> nat \<Rightarrow> (u32 \<times> nat \<times> nat) exec" where
  "XXH32_tail p len hash0 offset remaining =
     (let hash = hash0 + of_nat len in
      bnd (word_loop p hash offset remaining) (\<lambda>(hash, offset, remaining).
      byte_loop p hash offset remaining))"

definition XXH32 :: "u8 list option \<Rightarrow> nat \<Rightarrow> u32 \<Rightarrow> u32 exec" where
  "XXH32 input len seed =
     (case input of
        None \<Rightarrow> ret (XXH32_avalanche (seed + PRIME32_5))
      | Some p \<Rightarrow>
          (let remaining = len; offset = 0 in
           bnd (XXH32_lanes p offset remaining seed) (\<lambda>(hash, offset, remaining).
           bnd (XXH32_tail p len hash offset remaining) (\<lambda>(hash, offset, remaining).
           ret (XXH32_avalanche hash)))))"

subsection \<open>The self-test of \<^verbatim>\<open>main\<close>\<close>

text \<open>
  Lines 173 to 180: the array starts as zeros and the \<^verbatim>\<open>for\<close> statement stores the high
  byte of \<^verbatim>\<open>byte_gen\<close> at index \<^verbatim>\<open>i\<close>, which stays below the size of the array.
\<close>

definition TEST_DATA_SIZE :: nat where "TEST_DATA_SIZE = 101"

function fill_test_data :: "nat \<Rightarrow> u32 \<Rightarrow> u8 list \<Rightarrow> u8 list" where
  "fill_test_data i byte_gen test_data =
     (if i < TEST_DATA_SIZE
      then fill_test_data (i + 1) (byte_gen * byte_gen)
             (test_data[i := ucast (drop_bit 24 byte_gen)])
      else test_data)"
  by pat_completeness auto
termination
  by (relation "measure (\<lambda>(i, byte_gen, test_data). TEST_DATA_SIZE - i)") auto

definition test_data :: "u8 list" where
  "test_data = fill_test_data 0 PRIME32_1 (replicate TEST_DATA_SIZE 0)"

subsection \<open>The specification's reading of the algorithm\<close>

text \<open>
  The definitions below follow the wording of the specification (its sections 4.2 to 4.8
  and 6), not the code: they work on the list of the bytes still to be consumed, with no
  offsets, no trace and no failure, and read a word as a sum of powers of 256 and a
  rotation as the library's \<open>word_rotl\<close>. The values of the five constants are those of
  the source. They are what the model of the code is compared with. A word is read from
  a list only under a guard that makes the four indices valid.
\<close>

definition spec_rotate_left :: "u32 \<Rightarrow> nat \<Rightarrow> u32" where
  "spec_rotate_left val amount = word_rotl amount val"

definition spec_read_u32_le :: "u8 list \<Rightarrow> nat \<Rightarrow> u32" where
  "spec_read_u32_le buffer offset =
     of_nat (unat (buffer ! offset) + unat (buffer ! (offset + 1)) * 2 ^ 8
             + unat (buffer ! (offset + 2)) * 2 ^ 16 + unat (buffer ! (offset + 3)) * 2 ^ 24)"

definition spec_round :: "u32 \<Rightarrow> u32 \<Rightarrow> u32" where
  "spec_round lane input = spec_rotate_left (lane + input * PRIME32_2) 13 * PRIME32_1"

fun spec_bulk :: "u32 \<Rightarrow> u32 \<Rightarrow> u32 \<Rightarrow> u32 \<Rightarrow> u8 list \<Rightarrow> u32 \<times> u32 \<times> u32 \<times> u32 \<times> u8 list" where
  "spec_bulk lane1 lane2 lane3 lane4 bs =
     (if length bs \<ge> 16
      then spec_bulk (spec_round lane1 (spec_read_u32_le bs 0))
                     (spec_round lane2 (spec_read_u32_le bs 4))
                     (spec_round lane3 (spec_read_u32_le bs 8))
                     (spec_round lane4 (spec_read_u32_le bs 12))
                     (drop 16 bs)
      else (lane1, lane2, lane3, lane4, bs))"

fun spec_word_tail :: "u32 \<Rightarrow> u8 list \<Rightarrow> u32 \<times> u8 list" where
  "spec_word_tail hash bs =
     (if length bs \<ge> 4
      then spec_word_tail
             (spec_rotate_left (hash + spec_read_u32_le bs 0 * PRIME32_3) 17 * PRIME32_4)
             (drop 4 bs)
      else (hash, bs))"

fun spec_byte_tail :: "u32 \<Rightarrow> u8 list \<Rightarrow> u32" where
  "spec_byte_tail hash [] = hash"
| "spec_byte_tail hash (b # bs) =
     spec_byte_tail (spec_rotate_left (hash + ucast b * PRIME32_5) 11 * PRIME32_1) bs"

declare spec_bulk.simps [simp del] spec_word_tail.simps [simp del]
declare bulk_loop.simps [simp del] word_loop.simps [simp del] byte_loop.simps [simp del]
declare fill_test_data.simps [simp del]

definition spec_accumulate :: "u8 list \<Rightarrow> u32 \<Rightarrow> u32 \<times> u8 list" where
  "spec_accumulate bs seed =
     (if length bs \<ge> 16
      then (case spec_bulk (seed + PRIME32_1 + PRIME32_2) (seed + PRIME32_2) (seed + 0)
                   (seed - PRIME32_1) bs of
              (lane1, lane2, lane3, lane4, rest) \<Rightarrow>
                (spec_rotate_left lane1 1 + spec_rotate_left lane2 7
                 + spec_rotate_left lane3 12 + spec_rotate_left lane4 18, rest))
      else (seed + PRIME32_5, bs))"

definition spec_tail :: "nat \<Rightarrow> u32 \<Rightarrow> u8 list \<Rightarrow> u32" where
  "spec_tail len hash rest =
     (case spec_word_tail (hash + of_nat len) rest of
        (hash, rest) \<Rightarrow> spec_byte_tail hash rest)"

definition spec_hash :: "u8 list option \<Rightarrow> u32 \<Rightarrow> u32" where
  "spec_hash input seed =
     (case input of
        None \<Rightarrow> XXH32_avalanche (seed + PRIME32_5)
      | Some bs \<Rightarrow>
          (case spec_accumulate bs seed of
             (hash, rest) \<Rightarrow> XXH32_avalanche (spec_tail (length bs) hash rest)))"

text \<open>
  The synthetic buffer of the self-test as the specification describes it, on numbers:
  each byte is the high byte of \<open>byte_gen\<close>, which is then squared modulo \<open>2 ^ 32\<close>.
\<close>

fun spec_test_bytes :: "nat \<Rightarrow> nat \<Rightarrow> nat list" where
  "spec_test_bytes 0 byte_gen = []"
| "spec_test_bytes (Suc n) byte_gen =
     (byte_gen div 2 ^ 24) # spec_test_bytes n ((byte_gen * byte_gen) mod 2 ^ 32)"

text \<open>
  The finalizer as the specification writes it, on numbers below \<open>2 ^ 32\<close>: a shift to
  the right is a division by a power of two, and the two factors are the second and the
  third constant.
\<close>

definition spec_avalanche :: "nat \<Rightarrow> nat" where
  "spec_avalanche h =
     (let h1 = h XOR (h div 2 ^ 15);
          h2 = (h1 * 0x85EBCA77) mod 2 ^ 32;
          h3 = h2 XOR (h2 div 2 ^ 13);
          h4 = (h3 * 0xC2B2AE3D) mod 2 ^ 32;
          h5 = h4 XOR (h4 div 2 ^ 16)
      in h5)"

section \<open>Auxiliary facts\<close>

lemma load_in_bounds: "i < length p \<Longrightarrow> load p i = ([Load i], Some (p ! i))"
  by (simp add: load_def)

lemma rotl_bits:
  fixes v :: u32
  assumes "0 < n" "n < 32"
  shows "push_bit n v OR drop_bit (32 - n) v = word_rotl n v"
proof (rule bit_word_eqI)
  fix k assume "k < LENGTH(32)"
  then have k: "k < 32" by simp
  have R: "bit (word_rotl n v) k = bit v ((k + (32 - n)) mod 32)"
    using k assms by (simp add: bit_word_rotl_iff)
  show "bit (push_bit n v OR drop_bit (32 - n) v) k = bit (word_rotl n v) k"
  proof (cases "n \<le> k")
    case True
    have idx: "(k + (32 - n)) mod 32 = k - n"
      using True assms k by (simp add: mod_if)
    have "\<not> bit v (32 - n + k)"
      using bit_imp_le_length [of v "32 - n + k"] True assms k by auto
    then have "bit (push_bit n v OR drop_bit (32 - n) v) k = bit v (k - n)"
      using True k by (simp add: bit_or_iff bit_push_bit_iff bit_drop_bit_eq)
    then show ?thesis by (simp only: R idx)
  next
    case False
    have idx: "(k + (32 - n)) mod 32 = 32 - n + k"
      using False assms k by simp
    have "bit (push_bit n v OR drop_bit (32 - n) v) k = bit v (32 - n + k)"
      using False k by (simp add: bit_or_iff bit_push_bit_iff bit_drop_bit_eq)
    then show ?thesis by (simp only: R idx)
  qed
qed

lemma unat_32_minus:
  fixes a :: u32
  assumes "0 < unat a" "unat a < 32"
  shows "unat (32 - a) = 32 - unat a"
proof -
  have "a \<le> 32" using assms by (simp add: word_le_nat_alt)
  then show ?thesis by (simp add: unat_sub)
qed

lemma rotl_defined:
  assumes "0 < unat a" "unat a < 32"
  shows "XXH_rotl32 v a = ([Rotl a], Some (spec_rotate_left v (unat a)))"
  using assms by (simp add: XXH_rotl32_def unat_32_minus rotl_bits spec_rotate_left_def)

lemma bit_ucast_u8_bound: "bit (ucast (b :: u8) :: u32) n \<Longrightarrow> n < 8"
  by (auto simp: bit_ucast_iff dest: bit_imp_le_length)

lemma le32_or_sum:
  fixes b0 b1 b2 b3 :: u8
  shows "(ucast b0 :: u32) OR push_bit 8 (ucast b1 :: u32) OR push_bit 16 (ucast b2 :: u32)
           OR push_bit 24 (ucast b3 :: u32)
         = of_nat (unat b0 + unat b1 * 2 ^ 8 + unat b2 * 2 ^ 16 + unat b3 * 2 ^ 24)"
proof -
  let ?A = "ucast b0 :: u32" and ?B = "push_bit 8 (ucast b1 :: u32)"
  and ?C = "push_bit 16 (ucast b2 :: u32)" and ?D = "push_bit 24 (ucast b3 :: u32)"
  have cd: "?C + ?D = ?C OR ?D"
    by (rule disjunctive_add)
       (auto simp: bit_push_bit_iff dest!: bit_ucast_u8_bound)
  have bcd: "?B + (?C OR ?D) = ?B OR (?C OR ?D)"
    by (rule disjunctive_add)
       (auto simp: bit_push_bit_iff bit_or_iff dest!: bit_ucast_u8_bound)
  have abcd: "?A + (?B OR (?C OR ?D)) = ?A OR (?B OR (?C OR ?D))"
    by (rule disjunctive_add)
       (auto simp: bit_push_bit_iff bit_or_iff dest!: bit_ucast_u8_bound)
  have "?A OR ?B OR ?C OR ?D = ?A + (?B + (?C + ?D))"
    by (simp only: cd bcd abcd)
  also have "\<dots> = of_nat (unat b0 + unat b1 * 2 ^ 8 + unat b2 * 2 ^ 16 + unat b3 * 2 ^ 24)"
    by (simp add: push_bit_eq_mult)
  finally show ?thesis .
qed

lemma le32_sum_bound:
  fixes b0 b1 b2 b3 :: u8
  shows "unat b0 + unat b1 * 2 ^ 8 + unat b2 * 2 ^ 16 + unat b3 * 2 ^ 24 < (2::nat) ^ 32"
proof -
  have "unat b0 < 2 ^ 8" "unat b1 < 2 ^ 8" "unat b2 < 2 ^ 8" "unat b3 < 2 ^ 8"
    using unsigned_less [of b0] unsigned_less [of b1] unsigned_less [of b2] unsigned_less [of b3]
    by simp_all
  then show ?thesis by simp
qed

lemma unat_le32:
  fixes b0 b1 b2 b3 :: u8
  shows "unat (of_nat (unat b0 + unat b1 * 2 ^ 8 + unat b2 * 2 ^ 16 + unat b3 * 2 ^ 24) :: u32)
     = unat b0 + unat b1 * 2 ^ 8 + unat b2 * 2 ^ 16 + unat b3 * 2 ^ 24"
  using le32_sum_bound [of b0 b1 b2 b3]
  by (subst unat_of_nat) simp

lemma upt4: "[i..<i + 4] = [i, i + 1, i + 2, i + 3]"
  by (simp add: upt_rec)

lemma bnd_Pair_Some: "bnd (tr, Some x) f = (tr @ fst (f x), snd (f x))"
  by (simp add: bnd_def split: prod.splits)

lemma loads_append: "loads (es @ fs) = loads es @ loads fs"
  by (induction es rule: loads.induct) simp_all

lemma rotls_append: "rotls (es @ fs) = rotls es @ rotls fs"
  by (induction es rule: rotls.induct) simp_all

lemma read32_in_bounds:
  assumes "offset + 3 < length p"
  shows "XXH_read32 p offset =
    ([Load offset, Load (offset + 1), Load (offset + 2), Load (offset + 3)],
     Some (spec_read_u32_le p offset))"
  using assms
  by (simp add: XXH_read32_def load_in_bounds bnd_Pair_Some ret_def le32_or_sum
      spec_read_u32_le_def)

lemma round_defined: "XXH32_round lane w = ([Rotl 13], Some (spec_round lane w))"
  by (simp add: XXH32_round_def Let_def rotl_defined bnd_Pair_Some ret_def spec_round_def)

lemma bulk_body_in_bounds:
  assumes "offset + 16 \<le> length p"
  shows "bulk_body p lane1 lane2 lane3 lane4 offset remaining =
    ([Load offset, Load (offset + 1), Load (offset + 2), Load (offset + 3), Rotl 13,
      Load (offset + 4), Load (offset + 5), Load (offset + 6), Load (offset + 7), Rotl 13,
      Load (offset + 8), Load (offset + 9), Load (offset + 10), Load (offset + 11), Rotl 13,
      Load (offset + 12), Load (offset + 13), Load (offset + 14), Load (offset + 15), Rotl 13],
     Some (spec_round lane1 (spec_read_u32_le p offset),
           spec_round lane2 (spec_read_u32_le p (offset + 4)),
           spec_round lane3 (spec_read_u32_le p (offset + 8)),
           spec_round lane4 (spec_read_u32_le p (offset + 12)),
           offset + 16, remaining - 16))"
  using assms
  by (simp add: bulk_body_def Let_def read32_in_bounds round_defined bnd_Pair_Some ret_def
      add.commute)

lemma word_body_in_bounds:
  assumes "offset + 4 \<le> length p"
  shows "word_body p hash offset remaining =
    ([Load offset, Load (offset + 1), Load (offset + 2), Load (offset + 3), Rotl 17],
     Some (spec_rotate_left (hash + spec_read_u32_le p offset * PRIME32_3) 17 * PRIME32_4,
           offset + 4, remaining - 4))"
  using assms
  by (simp add: word_body_def Let_def read32_in_bounds rotl_defined bnd_Pair_Some ret_def)

lemma byte_body_in_bounds:
  assumes "offset < length p"
  shows "byte_body p hash offset remaining =
    ([Load offset, Rotl 11],
     Some (spec_rotate_left (hash + ucast (p ! offset) * PRIME32_5) 11 * PRIME32_1,
           offset + 1, remaining - 1))"
  using assms
  by (simp add: byte_body_def Let_def load_in_bounds rotl_defined bnd_Pair_Some ret_def)

lemma read_window:
  assumes "offset + remaining \<le> length p" "k + 3 < remaining"
  shows "spec_read_u32_le (take remaining (drop offset p)) k = spec_read_u32_le p (offset + k)"
  using assms by (simp add: spec_read_u32_le_def add.assoc)


lemma upt16: "[i..<i + 16] = [i, i + 1, i + 2, i + 3, i + 4, i + 5, i + 6, i + 7, i + 8, i + 9,
    i + 10, i + 11, i + 12, i + 13, i + 14, i + 15]"
  by (simp add: upt_rec)

lemma upt_split: "[i..<i + (a + b)] = [i..<i + a] @ [i + a..<i + a + b]"
  using upt_add_eq_append [of i "i + a" b] by (simp add: add.assoc)

lemma bulk_loop_refines:
  assumes "offset + remaining \<le> length p"
  shows "result (bulk_loop p lane1 lane2 lane3 lane4 offset remaining) =
           Some (case spec_bulk lane1 lane2 lane3 lane4 (take remaining (drop offset p)) of
                   (a, b, c, d, rest) \<Rightarrow>
                     (a, b, c, d, offset + 16 * (remaining div 16), remaining mod 16))
         \<and> loads (trace (bulk_loop p lane1 lane2 lane3 lane4 offset remaining)) =
             [offset..<offset + 16 * (remaining div 16)]
         \<and> set (rotls (trace (bulk_loop p lane1 lane2 lane3 lane4 offset remaining))) \<subseteq> {13}"
  using assms
proof (induction p lane1 lane2 lane3 lane4 offset remaining rule: bulk_loop.induct)
  case (1 p lane1 lane2 lane3 lane4 offset remaining)
  show ?case
  proof (cases "remaining \<ge> 16")
    case False
    then have "remaining div 16 = 0" "remaining mod 16 = remaining" by simp_all
    with False show ?thesis
      by (simp add: bulk_loop.simps [of p lane1 lane2 lane3 lane4 offset remaining]
          spec_bulk.simps [of lane1 lane2 lane3 lane4 "take remaining (drop offset p)"]
          ret_def result_def trace_def)
  next
    case True
    with "1.prems" have inb: "offset + 16 \<le> length p" by simp
    let ?l1 = "spec_round lane1 (spec_read_u32_le p offset)"
    let ?l2 = "spec_round lane2 (spec_read_u32_le p (offset + 4))"
    let ?l3 = "spec_round lane3 (spec_read_u32_le p (offset + 8))"
    let ?l4 = "spec_round lane4 (spec_read_u32_le p (offset + 12))"
    let ?next = "bulk_loop p ?l1 ?l2 ?l3 ?l4 (offset + 16) (remaining - 16)"
    note body = bulk_body_in_bounds [OF inb, of lane1 lane2 lane3 lane4 remaining]
    have res: "result (bulk_body p lane1 lane2 lane3 lane4 offset remaining) =
        Some (?l1, ?l2, ?l3, ?l4, offset + 16, remaining - 16)"
      by (simp add: body result_def)
    have prem: "offset + 16 + (remaining - 16) \<le> length p"
      using True "1.prems" by simp
    note IH = "1.IH" [OF True res refl refl refl refl refl prem]
    have unfold: "bulk_loop p lane1 lane2 lane3 lane4 offset remaining =
        (fst (bulk_body p lane1 lane2 lane3 lane4 offset remaining) @ fst ?next, snd ?next)"
      using True
      by (simp add: bulk_loop.simps [of p lane1 lane2 lane3 lane4 offset remaining]
          body bnd_Pair_Some)
    have ar: "16 * (remaining div 16) = 16 + 16 * ((remaining - 16) div 16)"
      "remaining mod 16 = (remaining - 16) mod 16"
      using True by (simp_all add: le_div_geq le_mod_geq)
    have win: "drop 16 (take remaining (drop offset p)) =
        take (remaining - 16) (drop (offset + 16) p)"
      by (simp add: drop_take add.commute)
    have spec: "spec_bulk lane1 lane2 lane3 lane4 (take remaining (drop offset p)) =
        spec_bulk ?l1 ?l2 ?l3 ?l4 (take (remaining - 16) (drop (offset + 16) p))"
      using True "1.prems"
      by (simp add: spec_bulk.simps [of lane1 lane2 lane3 lane4 "take remaining (drop offset p)"]
          win read_window read_window [where k = 0, simplified])
    have r: "result (bulk_loop p lane1 lane2 lane3 lane4 offset remaining) = result ?next"
      by (simp add: unfold result_def)
    have t: "trace (bulk_loop p lane1 lane2 lane3 lane4 offset remaining) =
        fst (bulk_body p lane1 lane2 lane3 lane4 offset remaining) @ trace ?next"
      by (simp add: unfold trace_def)
    have "result (bulk_loop p lane1 lane2 lane3 lane4 offset remaining) =
           Some (case spec_bulk lane1 lane2 lane3 lane4 (take remaining (drop offset p)) of
                   (a, b, c, d, rest) \<Rightarrow>
                     (a, b, c, d, offset + 16 * (remaining div 16), remaining mod 16))"
      using IH by (simp add: r spec ar add.assoc)
    moreover have "loads (trace (bulk_loop p lane1 lane2 lane3 lane4 offset remaining)) =
             [offset..<offset + 16 * (remaining div 16)]"
    proof -
      have "[offset..<offset + 16 * (remaining div 16)] =
          [offset..<offset + 16] @ [offset + 16..<offset + 16 + 16 * ((remaining - 16) div 16)]"
        unfolding ar(1) by (rule upt_split)
      then show ?thesis
        using IH by (simp add: t loads_append body upt16)
    qed
    moreover have "set (rotls (trace (bulk_loop p lane1 lane2 lane3 lane4 offset remaining)))
        \<subseteq> {13}"
      using IH by (simp add: t rotls_append body)
    ultimately show ?thesis by blast
  qed
qed


lemma word_loop_refines:
  assumes "offset + remaining \<le> length p"
  shows "result (word_loop p hash offset remaining) =
           Some (case spec_word_tail hash (take remaining (drop offset p)) of
                   (h, rest) \<Rightarrow> (h, offset + 4 * (remaining div 4), remaining mod 4))
         \<and> loads (trace (word_loop p hash offset remaining)) =
             [offset..<offset + 4 * (remaining div 4)]
         \<and> set (rotls (trace (word_loop p hash offset remaining))) \<subseteq> {17}"
  using assms
proof (induction p hash offset remaining rule: word_loop.induct)
  case (1 p hash offset remaining)
  show ?case
  proof (cases "remaining \<ge> 4")
    case False
    then have "remaining div 4 = 0" "remaining mod 4 = remaining" by simp_all
    with False show ?thesis
      by (simp add: word_loop.simps [of p hash offset remaining]
          spec_word_tail.simps [of hash "take remaining (drop offset p)"]
          ret_def result_def trace_def)
  next
    case True
    with "1.prems" have inb: "offset + 4 \<le> length p" by simp
    let ?h = "spec_rotate_left (hash + spec_read_u32_le p offset * PRIME32_3) 17 * PRIME32_4"
    let ?next = "word_loop p ?h (offset + 4) (remaining - 4)"
    note body = word_body_in_bounds [OF inb, of hash remaining]
    have res: "result (word_body p hash offset remaining) = Some (?h, offset + 4, remaining - 4)"
      by (simp add: body result_def)
    have prem: "offset + 4 + (remaining - 4) \<le> length p"
      using True "1.prems" by simp
    note IH = "1.IH" [OF True res refl refl prem]
    have unfold: "word_loop p hash offset remaining =
        (fst (word_body p hash offset remaining) @ fst ?next, snd ?next)"
      using True
      by (simp add: word_loop.simps [of p hash offset remaining] body bnd_Pair_Some)
    have ar: "4 * (remaining div 4) = 4 + 4 * ((remaining - 4) div 4)"
      "remaining mod 4 = (remaining - 4) mod 4"
      using True by (simp_all add: le_div_geq le_mod_geq)
    have win: "drop 4 (take remaining (drop offset p)) =
        take (remaining - 4) (drop (offset + 4) p)"
      by (simp add: drop_take add.commute)
    have spec: "spec_word_tail hash (take remaining (drop offset p)) =
        spec_word_tail ?h (take (remaining - 4) (drop (offset + 4) p))"
      using True "1.prems"
      by (simp add: spec_word_tail.simps [of hash "take remaining (drop offset p)"]
          win read_window [where k = 0, simplified])
    have r: "result (word_loop p hash offset remaining) = result ?next"
      by (simp add: unfold result_def)
    have t: "trace (word_loop p hash offset remaining) =
        fst (word_body p hash offset remaining) @ trace ?next"
      by (simp add: unfold trace_def)
    have "result (word_loop p hash offset remaining) =
           Some (case spec_word_tail hash (take remaining (drop offset p)) of
                   (h, rest) \<Rightarrow> (h, offset + 4 * (remaining div 4), remaining mod 4))"
      using IH by (simp add: r spec ar add.assoc)
    moreover have "loads (trace (word_loop p hash offset remaining)) =
             [offset..<offset + 4 * (remaining div 4)]"
    proof -
      have "[offset..<offset + 4 * (remaining div 4)] =
          [offset..<offset + 4] @ [offset + 4..<offset + 4 + 4 * ((remaining - 4) div 4)]"
        unfolding ar(1) by (rule upt_split)
      then show ?thesis
        using IH by (simp add: t loads_append body upt4)
    qed
    moreover have "set (rotls (trace (word_loop p hash offset remaining))) \<subseteq> {17}"
      using IH by (simp add: t rotls_append body)
    ultimately show ?thesis by blast
  qed
qed

lemma byte_loop_refines:
  assumes "offset + remaining \<le> length p"
  shows "result (byte_loop p hash offset remaining) =
           Some (spec_byte_tail hash (take remaining (drop offset p)), offset + remaining, 0)
         \<and> loads (trace (byte_loop p hash offset remaining)) = [offset..<offset + remaining]
         \<and> set (rotls (trace (byte_loop p hash offset remaining))) \<subseteq> {11}"
  using assms
proof (induction p hash offset remaining rule: byte_loop.induct)
  case (1 p hash offset remaining)
  show ?case
  proof (cases "remaining \<noteq> 0")
    case False
    then show ?thesis
      by (simp add: byte_loop.simps [of p hash offset 0] ret_def result_def trace_def)
  next
    case True
    with "1.prems" have inb: "offset < length p" by simp
    let ?h = "spec_rotate_left (hash + ucast (p ! offset) * PRIME32_5) 11 * PRIME32_1"
    let ?next = "byte_loop p ?h (offset + 1) (remaining - 1)"
    note body = byte_body_in_bounds [OF inb, of hash remaining]
    have res: "result (byte_body p hash offset remaining) = Some (?h, offset + 1, remaining - 1)"
      by (simp add: body result_def)
    have prem: "offset + 1 + (remaining - 1) \<le> length p"
      using True "1.prems" by simp
    note IH = "1.IH" [OF True res refl refl prem]
    have unfold: "byte_loop p hash offset remaining =
        (fst (byte_body p hash offset remaining) @ fst ?next, snd ?next)"
      using True
      by (simp add: byte_loop.simps [of p hash offset remaining] body bnd_Pair_Some)
    have win: "take remaining (drop offset p) =
        p ! offset # take (remaining - 1) (drop (offset + 1) p)"
      using True inb by (cases remaining) (simp_all add: Cons_nth_drop_Suc [symmetric])
    have r: "result (byte_loop p hash offset remaining) = result ?next"
      by (simp add: unfold result_def)
    have t: "trace (byte_loop p hash offset remaining) =
        fst (byte_body p hash offset remaining) @ trace ?next"
      by (simp add: unfold trace_def)
    have "result (byte_loop p hash offset remaining) =
           Some (spec_byte_tail hash (take remaining (drop offset p)), offset + remaining, 0)"
      using IH True by (simp add: r win)
    moreover have "loads (trace (byte_loop p hash offset remaining)) =
        [offset..<offset + remaining]"
    proof -
      have "[offset..<offset + remaining] = offset # [offset + 1..<offset + 1 + (remaining - 1)]"
        using True by (simp add: upt_rec [of offset])
      then show ?thesis
        using IH by (simp add: t loads_append body)
    qed
    moreover have "set (rotls (trace (byte_loop p hash offset remaining))) \<subseteq> {11}"
      using IH by (simp add: t rotls_append body)
    ultimately show ?thesis by blast
  qed
qed

lemma spec_bulk_rest:
  "spec_bulk lane1 lane2 lane3 lane4 bs = (a, b, c, d, rest) \<Longrightarrow>
     rest = drop (16 * (length bs div 16)) bs"
proof (induction lane1 lane2 lane3 lane4 bs rule: spec_bulk.induct)
  case (1 lane1 lane2 lane3 lane4 bs)
  show ?case
  proof (cases "length bs \<ge> 16")
    case True
    have ar: "16 * (length bs div 16) = 16 * ((length bs - 16) div 16) + 16"
      using True by (simp add: le_div_geq)
    from "1.prems" True have "rest = drop (16 * (length (drop 16 bs) div 16)) (drop 16 bs)"
      by (intro "1.IH" [OF True]) (simp add: spec_bulk.simps [of lane1 lane2 lane3 lane4 bs])
    then show ?thesis by (simp add: ar)
  next
    case False
    with "1.prems" show ?thesis
      by (simp add: spec_bulk.simps [of lane1 lane2 lane3 lane4 bs])
  qed
qed

lemma spec_word_tail_rest:
  "spec_word_tail hash bs = (h, rest) \<Longrightarrow> rest = drop (4 * (length bs div 4)) bs"
proof (induction hash bs rule: spec_word_tail.induct)
  case (1 hash bs)
  show ?case
  proof (cases "length bs \<ge> 4")
    case True
    have ar: "4 * (length bs div 4) = 4 * ((length bs - 4) div 4) + 4"
      using True by (simp add: le_div_geq)
    from "1.prems" True have "rest = drop (4 * (length (drop 4 bs) div 4)) (drop 4 bs)"
      by (intro "1.IH" [OF True]) (simp add: spec_word_tail.simps [of hash bs])
    then show ?thesis by (simp add: ar)
  next
    case False
    with "1.prems" show ?thesis
      by (simp add: spec_word_tail.simps [of hash bs])
  qed
qed

lemma window_rest:
  assumes "offset + remaining \<le> length p"
  shows "drop (k * (remaining div k)) (take remaining (drop offset p)) =
    take (remaining mod k) (drop (offset + k * (remaining div k)) p)"
proof -
  have "remaining - k * (remaining div k) = remaining mod k"
    by (simp add: minus_mult_div_eq_mod)
  then show ?thesis by (simp add: drop_take add.commute)
qed


lemma result_bnd: "result m = Some x \<Longrightarrow> result (bnd m f) = result (f x)"
  by (cases m) (simp add: result_def bnd_def split: prod.splits)

lemma trace_bnd: "result m = Some x \<Longrightarrow> trace (bnd m f) = trace m @ trace (f x)"
  by (cases m) (simp add: result_def trace_def bnd_def split: prod.splits)

lemma trace_ret: "trace (ret x) = []"
  by (simp add: trace_def ret_def)

lemma trace_rotl: "trace (XXH_rotl32 v a) = [Rotl a]"
  by (simp add: XXH_rotl32_def trace_def)

lemma lanes_refines:
  assumes "len \<le> length p"
  shows "result (XXH32_lanes p 0 len seed) =
           Some (fst (spec_accumulate (take len p) seed), 16 * (len div 16), len mod 16)
         \<and> snd (spec_accumulate (take len p) seed) =
             take (len mod 16) (drop (16 * (len div 16)) p)
         \<and> loads (trace (XXH32_lanes p 0 len seed)) = [0..<16 * (len div 16)]
         \<and> set (rotls (trace (XXH32_lanes p 0 len seed))) \<subseteq> {1, 7, 12, 13, 18}"
proof (cases "len \<ge> 16")
  case False
  then have "len div 16 = 0" "len mod 16 = len" by simp_all
  with False assms show ?thesis
    by (simp add: XXH32_lanes_def spec_accumulate_def trace_ret)
next
  case True
  let ?loop = "bulk_loop p (seed + PRIME32_1 + PRIME32_2) (seed + PRIME32_2) (seed + 0)
      (seed - PRIME32_1) 0 len"
  obtain a b c d rest where sb:
    "spec_bulk (seed + PRIME32_1 + PRIME32_2) (seed + PRIME32_2) (seed + 0)
       (seed - PRIME32_1) (take len p) = (a, b, c, d, rest)"
    by (metis prod_cases5)
  from assms have pre: "0 + len \<le> length p" by simp
  note L = bulk_loop_refines [OF pre, of "seed + PRIME32_1 + PRIME32_2" "seed + PRIME32_2"
      "seed + 0" "seed - PRIME32_1"]
  have lr: "result ?loop = Some (a, b, c, d, 16 * (len div 16), len mod 16)"
    using L sb by simp
  have rest: "rest = take (len mod 16) (drop (16 * (len div 16)) p)"
    using spec_bulk_rest [OF sb] window_rest [OF pre, of 16] assms by simp
  have acc: "spec_accumulate (take len p) seed =
      (spec_rotate_left a 1 + spec_rotate_left b 7 + spec_rotate_left c 12
       + spec_rotate_left d 18, rest)"
    using True assms sb by (simp add: spec_accumulate_def)
  have unf: "XXH32_lanes p 0 len seed =
      bnd ?loop (\<lambda>(lane1, lane2, lane3, lane4, offset, remaining).
        bnd (XXH_rotl32 lane1 1) (\<lambda>r1.
        bnd (XXH_rotl32 lane2 7) (\<lambda>r2.
        bnd (XXH_rotl32 lane3 12) (\<lambda>r3.
        bnd (XXH_rotl32 lane4 18) (\<lambda>r4.
        ret (r1 + r2 + r3 + r4, offset, remaining))))))"
    using True by (simp add: XXH32_lanes_def Let_def)
  have "result (XXH32_lanes p 0 len seed) =
      Some (fst (spec_accumulate (take len p) seed), 16 * (len div 16), len mod 16)"
    unfolding unf result_bnd [OF lr]
    by (simp add: rotl_defined bnd_Pair_Some ret_def result_def acc)
  moreover have tr: "trace (XXH32_lanes p 0 len seed) =
      trace ?loop @ [Rotl 1, Rotl 7, Rotl 12, Rotl 18]"
    unfolding unf trace_bnd [OF lr]
    by (simp add: rotl_defined bnd_Pair_Some ret_def trace_def)
  moreover have "loads (trace ?loop @ [Rotl 1, Rotl 7, Rotl 12, Rotl 18]) =
      [0..<16 * (len div 16)]"
    using L by (simp add: loads_append)
  moreover have "set (rotls (trace ?loop @ [Rotl 1, Rotl 7, Rotl 12, Rotl 18]))
      \<subseteq> {1, 7, 12, 13, 18}"
    using L by (auto simp: rotls_append)
  ultimately show ?thesis
    using rest acc by simp
qed

lemma tail_refines:
  assumes "offset + remaining \<le> length p"
  shows "result (XXH32_tail p len hash offset remaining) =
           Some (spec_tail len hash (take remaining (drop offset p)), offset + remaining, 0)
         \<and> loads (trace (XXH32_tail p len hash offset remaining)) =
             [offset..<offset + remaining]
         \<and> set (rotls (trace (XXH32_tail p len hash offset remaining))) \<subseteq> {11, 17}"
proof -
  let ?h0 = "hash + of_nat len"
  let ?w = "word_loop p ?h0 offset remaining"
  let ?off = "offset + 4 * (remaining div 4)"
  let ?rem = "remaining mod 4"
  obtain h rest where sw: "spec_word_tail ?h0 (take remaining (drop offset p)) = (h, rest)"
    by (metis surj_pair)
  note W = word_loop_refines [OF assms, of ?h0]
  have wr: "result ?w = Some (h, ?off, ?rem)"
    using W sw by simp
  have rest: "rest = take ?rem (drop ?off p)"
    using spec_word_tail_rest [OF sw] window_rest [OF assms, of 4] assms by simp
  have pre: "?off + ?rem \<le> length p"
    using assms by simp
  note B = byte_loop_refines [OF pre, of h]
  have sum: "?off + ?rem = offset + remaining"
    by simp
  have unf: "XXH32_tail p len hash offset remaining =
      bnd ?w (\<lambda>(hash, offset, remaining). byte_loop p hash offset remaining)"
    by (simp add: XXH32_tail_def Let_def)
  have "result (XXH32_tail p len hash offset remaining) =
      Some (spec_tail len hash (take remaining (drop offset p)), offset + remaining, 0)"
    using B unfolding unf result_bnd [OF wr] sum by (simp add: spec_tail_def sw rest)
  moreover have tr: "trace (XXH32_tail p len hash offset remaining) =
      trace ?w @ trace (byte_loop p h ?off ?rem)"
    unfolding unf trace_bnd [OF wr] by simp
  moreover have "loads (trace ?w @ trace (byte_loop p h ?off ?rem)) =
      [offset..<offset + remaining]"
  proof -
    have "[offset..<?off + ?rem] = [offset..<?off] @ [?off..<?off + ?rem]"
      by (rule upt_add_eq_append) simp
    then show ?thesis
      using W B unfolding sum by (simp add: loads_append)
  qed
  moreover have "set (rotls (trace ?w @ trace (byte_loop p h ?off ?rem))) \<subseteq> {11, 17}"
    using W B by (auto simp: rotls_append)
  ultimately show ?thesis by simp
qed

lemma XXH32_refines:
  assumes "len \<le> length p"
  shows "result (XXH32 (Some p) len seed) = Some (spec_hash (Some (take len p)) seed)
         \<and> loads (trace (XXH32 (Some p) len seed)) = [0..<len]
         \<and> set (rotls (trace (XXH32 (Some p) len seed))) \<subseteq> {1, 7, 11, 12, 13, 17, 18}"
proof -
  let ?acc = "fst (spec_accumulate (take len p) seed)"
  let ?off = "16 * (len div 16)"
  let ?rem = "len mod 16"
  let ?lanes = "XXH32_lanes p 0 len seed"
  let ?tail = "XXH32_tail p len ?acc ?off ?rem"
  note L = lanes_refines [OF assms, of seed]
  have lr: "result ?lanes = Some (?acc, ?off, ?rem)"
    using L by simp
  have pre: "?off + ?rem \<le> length p"
    using assms by simp
  have sum: "?off + ?rem = len"
    by simp
  note T = tail_refines [OF pre, of len ?acc]
  have tr: "result ?tail =
      Some (spec_tail len ?acc (snd (spec_accumulate (take len p) seed)), len, 0)"
    using T L unfolding sum by simp
  have unf: "XXH32 (Some p) len seed =
      bnd ?lanes (\<lambda>(hash, offset, remaining).
      bnd (XXH32_tail p len hash offset remaining) (\<lambda>(hash, offset, remaining).
      ret (XXH32_avalanche hash)))"
    by (simp add: XXH32_def Let_def)
  have "result (XXH32 (Some p) len seed) = Some (spec_hash (Some (take len p)) seed)"
  proof -
    have "result (XXH32 (Some p) len seed) = result (bnd ?tail
        (\<lambda>(hash, offset, remaining). ret (XXH32_avalanche hash)))"
      unfolding unf result_bnd [OF lr] by simp
    also have "\<dots> = Some (XXH32_avalanche
        (spec_tail len ?acc (snd (spec_accumulate (take len p) seed))))"
      unfolding result_bnd [OF tr] by simp
    finally show ?thesis
      using assms by (simp add: spec_hash_def split: prod.splits)
  qed
  moreover have t: "trace (XXH32 (Some p) len seed) = trace ?lanes @ trace ?tail"
  proof -
    have "trace (XXH32 (Some p) len seed) = trace ?lanes @ trace (bnd ?tail
        (\<lambda>(hash, offset, remaining). ret (XXH32_avalanche hash)))"
      unfolding unf trace_bnd [OF lr] by simp
    also have "\<dots> = trace ?lanes @ trace ?tail"
      unfolding trace_bnd [OF tr] by (simp add: trace_ret)
    finally show ?thesis .
  qed
  moreover have "loads (trace ?lanes @ trace ?tail) = [0..<len]"
  proof -
    have "[0..<?off + ?rem] = [0..<?off] @ [?off..<?off + ?rem]"
      by (rule upt_add_eq_append) simp
    then show ?thesis
      using L T unfolding sum by (simp add: loads_append)
  qed
  moreover have "set (rotls (trace ?lanes @ trace ?tail)) \<subseteq> {1, 7, 11, 12, 13, 17, 18}"
    using L T by (auto simp: rotls_append)
  ultimately show ?thesis by simp
qed

lemma rotls_trace_bnd:
  assumes "set (rotls (trace m)) \<subseteq> S"
    and "\<And>x. result m = Some x \<Longrightarrow> set (rotls (trace (f x))) \<subseteq> S"
  shows "set (rotls (trace (bnd m f))) \<subseteq> S"
proof (cases "result m")
  case None
  then have "trace (bnd m f) = trace m"
    by (cases m) (simp add: bnd_def trace_def result_def)
  with assms(1) show ?thesis by simp
next
  case (Some x)
  from trace_bnd [OF Some, of f] assms(1) assms(2) [OF Some] show ?thesis
    by (simp add: rotls_append)
qed

lemma rotls_trace_ret: "set (rotls (trace (ret x))) \<subseteq> S"
  by (simp add: trace_ret)

lemma rotls_trace_load: "set (rotls (trace (load p i))) \<subseteq> S"
  by (simp add: load_def trace_def)

lemma rotls_trace_rotl: "a \<in> S \<Longrightarrow> set (rotls (trace (XXH_rotl32 v a))) \<subseteq> S"
  by (simp add: trace_rotl)

lemma rotls_trace_read32: "set (rotls (trace (XXH_read32 p offset))) \<subseteq> S"
  unfolding XXH_read32_def
  by (intro rotls_trace_bnd rotls_trace_load rotls_trace_ret)

lemma rotls_trace_round: "13 \<in> S \<Longrightarrow> set (rotls (trace (XXH32_round lane w))) \<subseteq> S"
  unfolding XXH32_round_def Let_def
  by (intro rotls_trace_bnd rotls_trace_rotl rotls_trace_ret)

lemma rotls_trace_bulk_body:
  "13 \<in> S \<Longrightarrow> set (rotls (trace (bulk_body p lane1 lane2 lane3 lane4 offset remaining))) \<subseteq> S"
  unfolding bulk_body_def Let_def
  by (intro rotls_trace_bnd rotls_trace_read32 rotls_trace_round rotls_trace_ret)

lemma rotls_trace_word_body:
  "17 \<in> S \<Longrightarrow> set (rotls (trace (word_body p hash offset remaining))) \<subseteq> S"
  unfolding word_body_def Let_def
  by (intro rotls_trace_bnd rotls_trace_read32 rotls_trace_rotl rotls_trace_ret)

lemma rotls_trace_byte_body:
  "11 \<in> S \<Longrightarrow> set (rotls (trace (byte_body p hash offset remaining))) \<subseteq> S"
  unfolding byte_body_def Let_def
  by (intro rotls_trace_bnd rotls_trace_load rotls_trace_rotl rotls_trace_ret)

lemma rotls_trace_bulk_loop:
  "13 \<in> S \<Longrightarrow> set (rotls (trace (bulk_loop p lane1 lane2 lane3 lane4 offset remaining))) \<subseteq> S"
proof (induction p lane1 lane2 lane3 lane4 offset remaining rule: bulk_loop.induct)
  case (1 p lane1 lane2 lane3 lane4 offset remaining)
  show ?case
  proof (cases "remaining \<ge> 16")
    case True
    have "set (rotls (trace (bnd (bulk_body p lane1 lane2 lane3 lane4 offset remaining)
             (\<lambda>(lane1, lane2, lane3, lane4, offset, remaining).
                bulk_loop p lane1 lane2 lane3 lane4 offset remaining)))) \<subseteq> S"
    proof (rule rotls_trace_bnd)
      show "set (rotls (trace (bulk_body p lane1 lane2 lane3 lane4 offset remaining))) \<subseteq> S"
        using "1.prems" by (rule rotls_trace_bulk_body)
    next
      fix x
      assume r: "result (bulk_body p lane1 lane2 lane3 lane4 offset remaining) = Some x"
      obtain a b c d off rem where x: "x = (a, b, c, d, off, rem)"
        by (metis prod_cases6)
      from "1.IH" [OF True r [unfolded x] refl refl refl refl refl "1.prems"]
      show "set (rotls (trace (case x of (lane1, lane2, lane3, lane4, offset, remaining) \<Rightarrow>
                bulk_loop p lane1 lane2 lane3 lane4 offset remaining))) \<subseteq> S"
        by (simp add: x)
    qed
    with True show ?thesis
      by (simp add: bulk_loop.simps [of p lane1 lane2 lane3 lane4 offset remaining])
  next
    case False
    then show ?thesis
      by (simp add: bulk_loop.simps [of p lane1 lane2 lane3 lane4 offset remaining] trace_ret)
  qed
qed

lemma rotls_trace_word_loop:
  "17 \<in> S \<Longrightarrow> set (rotls (trace (word_loop p hash offset remaining))) \<subseteq> S"
proof (induction p hash offset remaining rule: word_loop.induct)
  case (1 p hash offset remaining)
  show ?case
  proof (cases "remaining \<ge> 4")
    case True
    have "set (rotls (trace (bnd (word_body p hash offset remaining)
             (\<lambda>(hash, offset, remaining). word_loop p hash offset remaining)))) \<subseteq> S"
    proof (rule rotls_trace_bnd)
      show "set (rotls (trace (word_body p hash offset remaining))) \<subseteq> S"
        using "1.prems" by (rule rotls_trace_word_body)
    next
      fix x
      assume r: "result (word_body p hash offset remaining) = Some x"
      obtain h off rem where x: "x = (h, off, rem)"
        by (metis prod_cases3)
      from "1.IH" [OF True r [unfolded x] refl refl "1.prems"]
      show "set (rotls (trace (case x of (hash, offset, remaining) \<Rightarrow>
                word_loop p hash offset remaining))) \<subseteq> S"
        by (simp add: x)
    qed
    with True show ?thesis
      by (simp add: word_loop.simps [of p hash offset remaining])
  next
    case False
    then show ?thesis
      by (simp add: word_loop.simps [of p hash offset remaining] trace_ret)
  qed
qed

lemma rotls_trace_byte_loop:
  "11 \<in> S \<Longrightarrow> set (rotls (trace (byte_loop p hash offset remaining))) \<subseteq> S"
proof (induction p hash offset remaining rule: byte_loop.induct)
  case (1 p hash offset remaining)
  show ?case
  proof (cases "remaining \<noteq> 0")
    case True
    have "set (rotls (trace (bnd (byte_body p hash offset remaining)
             (\<lambda>(hash, offset, remaining). byte_loop p hash offset remaining)))) \<subseteq> S"
    proof (rule rotls_trace_bnd)
      show "set (rotls (trace (byte_body p hash offset remaining))) \<subseteq> S"
        using "1.prems" by (rule rotls_trace_byte_body)
    next
      fix x
      assume r: "result (byte_body p hash offset remaining) = Some x"
      obtain h off rem where x: "x = (h, off, rem)"
        by (metis prod_cases3)
      from "1.IH" [OF True r [unfolded x] refl refl "1.prems"]
      show "set (rotls (trace (case x of (hash, offset, remaining) \<Rightarrow>
                byte_loop p hash offset remaining))) \<subseteq> S"
        by (simp add: x)
    qed
    with True show ?thesis
      by (simp add: byte_loop.simps [of p hash offset remaining])
  next
    case False
    then show ?thesis
      by (simp add: byte_loop.simps [of p hash offset 0] trace_ret)
  qed
qed

lemma rotls_trace_case3:
  "(\<And>a b c. set (rotls (trace (f a b c))) \<subseteq> S) \<Longrightarrow>
     set (rotls (trace (case x of (a, b, c) \<Rightarrow> f a b c))) \<subseteq> S"
  by (cases x) simp

lemma rotls_trace_case6:
  "(\<And>a b c d e g. set (rotls (trace (f a b c d e g))) \<subseteq> S) \<Longrightarrow>
     set (rotls (trace (case x of (a, b, c, d, e, g) \<Rightarrow> f a b c d e g))) \<subseteq> S"
  by (cases x) simp

lemma rotls_trace_lanes:
  assumes "{1, 7, 12, 13, 18} \<subseteq> S"
  shows "set (rotls (trace (XXH32_lanes p offset remaining seed))) \<subseteq> S"
proof -
  from assms have m: "1 \<in> S" "7 \<in> S" "12 \<in> S" "13 \<in> S" "18 \<in> S" by auto
  show ?thesis
  proof (cases "remaining \<ge> 16")
    case True
    have "set (rotls (trace (bnd (bulk_loop p (seed + PRIME32_1 + PRIME32_2) (seed + PRIME32_2)
              (seed + 0) (seed - PRIME32_1) offset remaining)
            (\<lambda>(lane1, lane2, lane3, lane4, offset, remaining).
            bnd (XXH_rotl32 lane1 1) (\<lambda>r1.
            bnd (XXH_rotl32 lane2 7) (\<lambda>r2.
            bnd (XXH_rotl32 lane3 12) (\<lambda>r3.
            bnd (XXH_rotl32 lane4 18) (\<lambda>r4.
            ret (r1 + r2 + r3 + r4, offset, remaining)))))))))  \<subseteq> S"
      by (intro rotls_trace_bnd rotls_trace_case6 rotls_trace_bulk_loop rotls_trace_rotl
          rotls_trace_ret m)
    with True show ?thesis by (simp add: XXH32_lanes_def Let_def)
  next
    case False
    then show ?thesis by (simp add: XXH32_lanes_def trace_ret)
  qed
qed

lemma rotls_trace_tail:
  assumes "{11, 17} \<subseteq> S"
  shows "set (rotls (trace (XXH32_tail p len hash offset remaining))) \<subseteq> S"
proof -
  from assms have m: "11 \<in> S" "17 \<in> S" by auto
  show ?thesis
    unfolding XXH32_tail_def Let_def
    by (intro rotls_trace_bnd rotls_trace_case3 rotls_trace_word_loop rotls_trace_byte_loop m)
qed

lemma rotls_trace_XXH32:
  "set (rotls (trace (XXH32 input len seed))) \<subseteq> {1, 7, 11, 12, 13, 17, 18}"
proof (cases input)
  case None
  then show ?thesis by (simp add: XXH32_def trace_ret)
next
  case (Some p)
  have "set (rotls (trace (bnd (XXH32_lanes p 0 len seed) (\<lambda>(hash, offset, remaining).
           bnd (XXH32_tail p len hash offset remaining) (\<lambda>(hash, offset, remaining).
           ret (XXH32_avalanche hash)))))) \<subseteq> {1, 7, 11, 12, 13, 17, 18}"
    by (intro rotls_trace_bnd rotls_trace_case3 rotls_trace_lanes rotls_trace_tail
        rotls_trace_ret) auto
  with Some show ?thesis by (simp add: XXH32_def Let_def)
qed

lemma unat_high_byte: "unat (ucast (drop_bit 24 (g :: u32)) :: u8) = unat g div 2 ^ 24"
proof -
  have "unat g < 2 ^ 32" using unsigned_less [of g] by simp
  then have "unat g div 2 ^ 24 < 2 ^ 8" by simp
  then show ?thesis
    by (simp add: unsigned_ucast_eq unat_drop_bit_eq drop_bit_nat_def take_bit_nat_eq_self)
qed

lemma fill_test_data_refines:
  assumes "length xs = TEST_DATA_SIZE" and "i \<le> TEST_DATA_SIZE"
  shows "map unat (fill_test_data i g xs) =
    take i (map unat xs) @ spec_test_bytes (TEST_DATA_SIZE - i) (unat g)"
  using assms
proof (induction i g xs rule: fill_test_data.induct)
  case (1 i g xs)
  show ?case
  proof (cases "i < TEST_DATA_SIZE")
    case False
    with "1.prems" have i: "i = length xs" by simp
    have "fill_test_data i g xs = xs"
      using False by (simp add: fill_test_data.simps [of i g xs])
    then show ?thesis
      using "1.prems" i by simp
  next
    case True
    let ?xs = "xs[i := ucast (drop_bit 24 g)]"
    have len: "length ?xs = TEST_DATA_SIZE" using "1.prems" by simp
    have le: "i + 1 \<le> TEST_DATA_SIZE" using True by simp
    note IH = "1.IH" [OF True len le]
    have S: "TEST_DATA_SIZE - i = Suc (TEST_DATA_SIZE - (i + 1))"
      using True by simp
    have tk: "take (i + 1) (map unat ?xs) = take i (map unat xs) @ [unat g div 2 ^ 24]"
      using True "1.prems"
      by (simp add: take_Suc_conv_app_nth unat_high_byte take_map)
    have "map unat (fill_test_data i g xs) = map unat (fill_test_data (i + 1) (g * g) ?xs)"
      using True by (simp add: fill_test_data.simps [of i g xs])
    also have "\<dots> = take (i + 1) (map unat ?xs)
        @ spec_test_bytes (TEST_DATA_SIZE - (i + 1)) (unat (g * g))"
      by (rule IH)
    also have "\<dots> = take i (map unat xs) @ spec_test_bytes (TEST_DATA_SIZE - i) (unat g)"
      unfolding tk S by (simp add: unat_word_ariths(2))
    finally show ?thesis .
  qed
qed

lemma test_data_refines: "map unat test_data = spec_test_bytes 101 0x9E3779B1"
  using fill_test_data_refines [of "replicate TEST_DATA_SIZE 0" 0 PRIME32_1]
  by (simp add: test_data_def TEST_DATA_SIZE_def PRIME32_1_def)

lemma golden_1: "result (XXH32 None 0 0) = Some 0x02CC5D05"
  by code_simp

lemma golden_2: "result (XXH32 None 0 PRIME32_1) = Some 0x36B78AE7"
  by code_simp

lemma golden_3: "result (XXH32 (Some test_data) 1 0) = Some 0xB85CBEE5"
  by code_simp

lemma golden_4: "result (XXH32 (Some test_data) 1 PRIME32_1) = Some 0xD5845D64"
  by code_simp

lemma golden_5: "result (XXH32 (Some test_data) 14 0) = Some 0xE5AA0AB4"
  by code_simp

lemma golden_6: "result (XXH32 (Some test_data) 14 PRIME32_1) = Some 0x4481951D"
  by code_simp

lemma golden_7: "result (XXH32 (Some test_data) TEST_DATA_SIZE 0) = Some 0x1F1AA412"
  by code_simp

lemma golden_8: "result (XXH32 (Some test_data) TEST_DATA_SIZE PRIME32_1) = Some 0x498EC8E2"
  by code_simp

lemma unat_avalanche: "unat (XXH32_avalanche h) = spec_avalanche (unat h)"
  by (simp add: XXH32_avalanche_def spec_avalanche_def Let_def PRIME32_2_def PRIME32_3_def
      unsigned_xor_eq unat_drop_bit_eq drop_bit_nat_def unat_mult_lem unat_word_ariths(2))

lemma test_data_length_21: "(21::nat) \<le> length test_data"
  by code_simp

section \<open>The claims\<close>

text \<open>
  Claim C1. The buffer that \<^verbatim>\<open>main\<close> fills holds, at each index, the high byte of
  \<^verbatim>\<open>byte_gen\<close>, which starts at \<open>0x9E3779B1\<close> and is squared modulo \<open>2 ^ 32\<close> after
  every byte; on it, and on the null input, \<^verbatim>\<open>XXH32\<close> returns the eight expected values of
  the self-test, for the lengths 0, 1, 14 and 101 and the seeds 0 and \<open>0x9E3779B1\<close>.
\<close>

theorem golden_vectors:
  "map unat test_data = spec_test_bytes 101 0x9E3779B1
   \<and> PRIME32_1 = 0x9E3779B1
   \<and> result (XXH32 None 0 0) = Some 0x02CC5D05
   \<and> result (XXH32 None 0 PRIME32_1) = Some 0x36B78AE7
   \<and> result (XXH32 (Some test_data) 1 0) = Some 0xB85CBEE5
   \<and> result (XXH32 (Some test_data) 1 PRIME32_1) = Some 0xD5845D64
   \<and> result (XXH32 (Some test_data) 14 0) = Some 0xE5AA0AB4
   \<and> result (XXH32 (Some test_data) 14 PRIME32_1) = Some 0x4481951D
   \<and> result (XXH32 (Some test_data) TEST_DATA_SIZE 0) = Some 0x1F1AA412
   \<and> result (XXH32 (Some test_data) TEST_DATA_SIZE PRIME32_1) = Some 0x498EC8E2"
  by (intro conjI test_data_refines golden_1 golden_2 golden_3 golden_4 golden_5 golden_6
      golden_7 golden_8 PRIME32_1_def)

text \<open>
  Claim C2. With a null input, whatever the length and the seed, \<^verbatim>\<open>XXH32\<close> returns
  normally, its value is the avalanche of \<open>seed + PRIME32_5\<close>, and it reads no byte and
  performs no rotation.
\<close>

theorem null_input:
  "result (XXH32 None len seed) = Some (XXH32_avalanche (seed + PRIME32_5))
   \<and> trace (XXH32 None len seed) = []"
  by (simp add: XXH32_def trace_ret)

text \<open>
  Claim C3. For a buffer of at least \<open>len\<close> bytes, let the lane phase (or the short
  path) leave the accumulator \<open>hash\<close> and the counters \<open>offset\<close> and \<open>remaining\<close>. Then
  \<open>offset + remaining = len\<close>, and the tail adds \<open>len\<close> modulo \<open>2 ^ 32\<close> to the
  accumulator, mixes the little-endian words of the rest four bytes at a time with
  rotation 17 and the primes 3 and 4, then the bytes left one at a time with rotation 11
  and the primes 5 and 1 (this is \<open>spec_tail\<close>), and ends at offset \<open>len\<close> with nothing
  remaining. The lane phase reads exactly the indices below \<open>offset\<close>, the tail exactly
  those from \<open>offset\<close> up to \<open>len\<close>, and the whole run reads \<open>0, 1, \<dots>, len - 1\<close>, each
  once and in increasing order.
\<close>

theorem tail_drains:
  assumes "len \<le> length p"
    and "result (XXH32_lanes p 0 len seed) = Some (hash, offset, remaining)"
  shows "offset + remaining = len
    \<and> result (XXH32_tail p len hash offset remaining) =
        Some (spec_tail len hash (take remaining (drop offset p)), len, 0)
    \<and> result (XXH32 (Some p) len seed) =
        Some (XXH32_avalanche (spec_tail len hash (take remaining (drop offset p))))
    \<and> loads (trace (XXH32_lanes p 0 len seed)) = [0..<offset]
    \<and> loads (trace (XXH32_tail p len hash offset remaining)) = [offset..<len]
    \<and> loads (trace (XXH32 (Some p) len seed)) = [0..<len]"
proof -
  note L = lanes_refines [OF assms(1), of seed]
  from L assms(2) have st: "hash = fst (spec_accumulate (take len p) seed)"
    "offset = 16 * (len div 16)" "remaining = len mod 16"
    by simp_all
  have sum: "offset + remaining = len"
    by (simp add: st)
  then have pre: "offset + remaining \<le> length p"
    using assms(1) by simp
  note T = tail_refines [OF pre, of len hash]
  note X = XXH32_refines [OF assms(1), of seed]
  have "spec_hash (Some (take len p)) seed =
      XXH32_avalanche (spec_tail len hash (take remaining (drop offset p)))"
    using L assms(1) by (cases "spec_accumulate (take len p) seed") (simp add: spec_hash_def st)
  with L T X sum show ?thesis
    by (simp add: st(2))
qed

theorem tail_drains_witness:
  "(21::nat) \<le> length test_data
   \<and> result (XXH32_lanes test_data 0 21 0) = Some (1371011455, 16, 5)
   \<and> result (XXH32_tail test_data 21 1371011455 16 5) =
        Some (spec_tail 21 1371011455 (take 5 (drop 16 test_data)), 21, 0)
   \<and> loads (trace (XXH32 (Some test_data) 21 0)) = [0..<21]"
proof -
  have h1: "(21::nat) \<le> length test_data" by code_simp
  have h2: "result (XXH32_lanes test_data 0 21 0) = Some (1371011455, 16, 5)" by code_simp
  from tail_drains [OF h1 h2] h1 h2 show ?thesis by simp
qed

text \<open>
  Claim C4. For a buffer of at least \<open>len\<close> bytes with \<open>16 \<le> len\<close>, the lanes start at
  \<open>seed + PRIME32_1 + PRIME32_2\<close>, \<open>seed + PRIME32_2\<close>, \<open>seed + 0\<close> and
  \<open>seed - PRIME32_1\<close>; while at least 16 bytes remain, four little-endian words are read
  in sequence and lane \<open>k\<close> becomes \<open>rotate_left (lane + word * PRIME32_2) 13 * PRIME32_1\<close>
  (this is \<open>spec_bulk\<close>); the accumulator is then the sum of the lanes rotated by 1, 7, 12
  and 18. The loop reads the first \<open>16 * (len div 16)\<close> bytes in order and leaves
  \<open>len mod 16\<close> bytes.
\<close>

theorem bulk_lanes:
  assumes "16 \<le> len" and "len \<le> length p"
  shows "result (XXH32_lanes p 0 len seed) =
      Some (case spec_bulk (seed + PRIME32_1 + PRIME32_2) (seed + PRIME32_2) (seed + 0)
                   (seed - PRIME32_1) (take len p) of
              (lane1, lane2, lane3, lane4, rest) \<Rightarrow>
                (spec_rotate_left lane1 1 + spec_rotate_left lane2 7
                 + spec_rotate_left lane3 12 + spec_rotate_left lane4 18,
                 16 * (len div 16), len mod 16))
    \<and> loads (trace (XXH32_lanes p 0 len seed)) = [0..<16 * (len div 16)]"
  using lanes_refines [OF assms(2), of seed] assms
  by (simp add: spec_accumulate_def split: prod.splits)

theorem bulk_lanes_witness:
  "(16::nat) \<le> 37 \<and> (37::nat) \<le> length test_data
   \<and> loads (trace (XXH32_lanes test_data 0 37 5)) = [0..<32]"
proof -
  have h1: "(16::nat) \<le> 37" by simp
  have h2: "(37::nat) \<le> length test_data" by code_simp
  from bulk_lanes [OF h1 h2, of 5] h1 h2 show ?thesis by simp
qed

text \<open>
  Claim C5. A length below 16 takes the short path: nothing is read, no lane is made and
  the accumulator is \<open>seed + PRIME32_5\<close>. The length 16 takes the lanes: the sixteen bytes
  are read and the accumulator is the sum of the four rotated lanes after one round each.
  After the word loop the number of bytes remaining is \<open>remaining mod 4\<close>, one of 0, 1, 2
  and 3, and the byte loop reads exactly those bytes and ends with nothing remaining.
\<close>

theorem path_split:
  "(len < 16 \<longrightarrow> XXH32_lanes p 0 len seed = ([], Some (seed + PRIME32_5, 0, len)))
   \<and> (16 \<le> length p \<longrightarrow>
        result (XXH32_lanes p 0 16 seed) =
          Some (spec_rotate_left (spec_round (seed + PRIME32_1 + PRIME32_2)
                                   (spec_read_u32_le p 0)) 1
                + spec_rotate_left (spec_round (seed + PRIME32_2) (spec_read_u32_le p 4)) 7
                + spec_rotate_left (spec_round (seed + 0) (spec_read_u32_le p 8)) 12
                + spec_rotate_left (spec_round (seed - PRIME32_1) (spec_read_u32_le p 12)) 18,
                16, 0)
        \<and> loads (trace (XXH32_lanes p 0 16 seed)) = [0..<16])
   \<and> (offset + remaining \<le> length p \<longrightarrow>
        (\<exists>h. result (word_loop p hash offset remaining) =
               Some (h, offset + 4 * (remaining div 4), remaining mod 4)
             \<and> remaining mod 4 \<in> {0, 1, 2, 3}
             \<and> result (byte_loop p h (offset + 4 * (remaining div 4)) (remaining mod 4)) =
                 Some (spec_byte_tail h (take (remaining mod 4)
                         (drop (offset + 4 * (remaining div 4)) p)), offset + remaining, 0)
             \<and> loads (trace (byte_loop p h (offset + 4 * (remaining div 4))
                         (remaining mod 4))) =
                 [offset + 4 * (remaining div 4)..<offset + remaining]))"
proof (intro conjI impI)
  assume "len < 16"
  then show "XXH32_lanes p 0 len seed = ([], Some (seed + PRIME32_5, 0, len))"
    by (simp add: XXH32_lanes_def ret_def)
next
  assume p16: "16 \<le> length p"
  have sb: "spec_bulk (seed + PRIME32_1 + PRIME32_2) (seed + PRIME32_2) (seed + 0)
      (seed - PRIME32_1) (take 16 p) =
      (spec_round (seed + PRIME32_1 + PRIME32_2) (spec_read_u32_le p 0),
       spec_round (seed + PRIME32_2) (spec_read_u32_le p 4),
       spec_round (seed + 0) (spec_read_u32_le p 8),
       spec_round (seed - PRIME32_1) (spec_read_u32_le p 12), [])"
    using p16 read_window [of 0 16 p, simplified]
    by (simp add: spec_bulk.simps [of _ _ _ _ "take 16 p"] spec_bulk.simps [of _ _ _ _ "[]"]
        read_window [of 0 16 p 0, simplified])
  from lanes_refines [OF p16, of seed] p16 sb
  show "result (XXH32_lanes p 0 16 seed) =
          Some (spec_rotate_left (spec_round (seed + PRIME32_1 + PRIME32_2)
                                   (spec_read_u32_le p 0)) 1
                + spec_rotate_left (spec_round (seed + PRIME32_2) (spec_read_u32_le p 4)) 7
                + spec_rotate_left (spec_round (seed + 0) (spec_read_u32_le p 8)) 12
                + spec_rotate_left (spec_round (seed - PRIME32_1) (spec_read_u32_le p 12)) 18,
                16, 0)"
    by (simp add: spec_accumulate_def)
  from lanes_refines [OF p16, of seed]
  show "loads (trace (XXH32_lanes p 0 16 seed)) = [0..<16]"
    by simp
next
  assume pre: "offset + remaining \<le> length p"
  let ?off = "offset + 4 * (remaining div 4)"
  let ?rem = "remaining mod 4"
  obtain h rest where sw: "spec_word_tail hash (take remaining (drop offset p)) = (h, rest)"
    by (metis surj_pair)
  from word_loop_refines [OF pre, of hash] sw
  have w: "result (word_loop p hash offset remaining) = Some (h, ?off, ?rem)"
    by simp
  have sum: "?off + ?rem = offset + remaining" by simp
  have pre': "?off + ?rem \<le> length p" using pre by simp
  have m: "?rem \<in> {0, 1, 2, 3}"
  proof -
    have "?rem < 4" by simp
    then show ?thesis by auto
  qed
  note B = byte_loop_refines [OF pre', of h, unfolded sum]
  show "\<exists>h. result (word_loop p hash offset remaining) = Some (h, ?off, ?rem)
             \<and> ?rem \<in> {0, 1, 2, 3}
             \<and> result (byte_loop p h ?off ?rem) =
                 Some (spec_byte_tail h (take ?rem (drop ?off p)), offset + remaining, 0)
             \<and> loads (trace (byte_loop p h ?off ?rem)) = [?off..<offset + remaining]"
  proof (intro exI [of _ h] conjI)
    show "result (word_loop p hash offset remaining) = Some (h, ?off, ?rem)" by (rule w)
    show "?rem \<in> {0, 1, 2, 3}" by (rule m)
    show "result (byte_loop p h ?off ?rem) =
        Some (spec_byte_tail h (take ?rem (drop ?off p)), offset + remaining, 0)"
      using B by blast
    show "loads (trace (byte_loop p h ?off ?rem)) = [?off..<offset + remaining]"
      using B by blast
  qed
qed

theorem path_split_witness:
  "(15::nat) < 16
   \<and> XXH32_lanes test_data 0 15 0 = ([], Some (0 + PRIME32_5, 0, 15))
   \<and> 16 \<le> length test_data
   \<and> loads (trace (XXH32_lanes test_data 0 16 0)) = [0..<16]
   \<and> 16 + 5 \<le> length test_data
   \<and> (\<exists>h. result (word_loop test_data 7 16 5) = Some (h, 20, 1)
          \<and> loads (trace (byte_loop test_data h 20 1)) = [20..<21])"
proof -
  have h1: "(15::nat) < 16" by simp
  have h2: "16 \<le> length test_data" using test_data_length_21 by simp
  have h3: "16 + 5 \<le> length test_data" using test_data_length_21 by simp
  from path_split [of 15 test_data 0 16 5 7] h1 h2 h3 show ?thesis by auto
qed

text \<open>
  Claim C6. Read as a number, the avalanche of \<open>h\<close> is the result of the sequence:
  exclusive-or with \<open>h\<close> shifted right by 15, multiplication by \<open>PRIME32_2\<close> modulo
  \<open>2 ^ 32\<close>, exclusive-or with the shift by 13, multiplication by \<open>PRIME32_3\<close> modulo
  \<open>2 ^ 32\<close>, exclusive-or with the shift by 16. It is the last step of \<^verbatim>\<open>XXH32\<close>: the
  value returned is the avalanche of the accumulator that the tail leaves, and of
  \<open>seed + PRIME32_5\<close> for the null input.
\<close>

theorem avalanche_sequence:
  "unat (XXH32_avalanche h) = spec_avalanche (unat h)
   \<and> (result (XXH32_lanes p 0 len seed) = Some (hash, offset, remaining) \<longrightarrow>
        result (XXH32_tail p len hash offset remaining) = Some (hash', offset', remaining') \<longrightarrow>
        result (XXH32 (Some p) len seed) = Some (XXH32_avalanche hash'))
   \<and> result (XXH32 None len seed) = Some (XXH32_avalanche (seed + PRIME32_5))"
proof (intro conjI impI)
  show "unat (XXH32_avalanche h) = spec_avalanche (unat h)"
    by (rule unat_avalanche)
next
  assume l: "result (XXH32_lanes p 0 len seed) = Some (hash, offset, remaining)"
    and t: "result (XXH32_tail p len hash offset remaining) = Some (hash', offset', remaining')"
  have "result (XXH32 (Some p) len seed) =
      result (bnd (XXH32_tail p len hash offset remaining)
        (\<lambda>(hash, offset, remaining). ret (XXH32_avalanche hash)))"
    unfolding XXH32_def Let_def option.case result_bnd [OF l] by simp
  also have "\<dots> = Some (XXH32_avalanche hash')"
    unfolding result_bnd [OF t] by simp
  finally show "result (XXH32 (Some p) len seed) = Some (XXH32_avalanche hash')" .
next
  show "result (XXH32 None len seed) = Some (XXH32_avalanche (seed + PRIME32_5))"
    by (simp add: XXH32_def)
qed

theorem avalanche_sequence_witness:
  "result (XXH32_lanes test_data 0 21 0) = Some (1371011455, 16, 5)
   \<and> result (XXH32_tail test_data 21 1371011455 16 5) = Some (1444913775, 21, 0)
   \<and> result (XXH32 (Some test_data) 21 0) = Some (XXH32_avalanche 1444913775)"
proof -
  have h1: "result (XXH32_lanes test_data 0 21 0) = Some (1371011455, 16, 5)"
    by code_simp
  have h2: "result (XXH32_tail test_data 21 1371011455 16 5) = Some (1444913775, 21, 0)"
    by code_simp
  from avalanche_sequence [where p = test_data and len = 21 and seed = 0
      and hash = 1371011455 and offset = 16 and remaining = 5
      and hash' = 1444913775 and offset' = 21 and remaining' = 0] h1 h2
  show ?thesis by blast
qed

text \<open>
  Claim C7. When the four bytes at \<open>offset\<close>, \<open>offset + 1\<close>, \<open>offset + 2\<close> and
  \<open>offset + 3\<close> are inside the buffer, \<^verbatim>\<open>XXH_read32\<close> reads exactly these four bytes and
  returns \<open>b0 + b1 * 2 ^ 8 + b2 * 2 ^ 16 + b3 * 2 ^ 24\<close>, the least significant byte first.
\<close>

theorem read32_little_endian:
  assumes "offset + 3 < length p"
  shows "map_option unat (result (XXH_read32 p offset)) =
      Some (unat (p ! offset) + unat (p ! (offset + 1)) * 2 ^ 8
            + unat (p ! (offset + 2)) * 2 ^ 16 + unat (p ! (offset + 3)) * 2 ^ 24)
    \<and> loads (trace (XXH_read32 p offset)) = [offset, offset + 1, offset + 2, offset + 3]"
proof -
  note R = read32_in_bounds [OF assms]
  have "result (XXH_read32 p offset) = Some (spec_read_u32_le p offset)"
    by (simp add: R result_def)
  moreover have "unat (spec_read_u32_le p offset) =
      unat (p ! offset) + unat (p ! (offset + 1)) * 2 ^ 8
      + unat (p ! (offset + 2)) * 2 ^ 16 + unat (p ! (offset + 3)) * 2 ^ 24"
    unfolding spec_read_u32_le_def by (rule unat_le32)
  moreover have "loads (trace (XXH_read32 p offset)) =
      [offset, offset + 1, offset + 2, offset + 3]"
    by (simp add: R trace_def)
  ultimately show ?thesis by simp
qed

theorem read32_little_endian_witness:
  "0 + 3 < length test_data
   \<and> map_option unat (result (XXH_read32 test_data 0)) =
       Some (unat (test_data ! 0) + unat (test_data ! (0 + 1)) * 2 ^ 8
             + unat (test_data ! (0 + 2)) * 2 ^ 16 + unat (test_data ! (0 + 3)) * 2 ^ 24)"
proof -
  have h: "0 + 3 < length test_data" using test_data_length_21 by simp
  from read32_little_endian [OF h] h show ?thesis by blast
qed

text \<open>
  Claim C8. Two inputs that are both null, or both buffers with the same first \<open>len\<close>
  bytes (a present buffer having at least \<open>len\<close> bytes), give the same returned value for
  the same length and seed; the value is a function of the first \<open>len\<close> bytes, the length
  and the seed only, so that bytes at indices from \<open>len\<close> on have no influence.
\<close>

theorem prefix_determines:
  assumes "map_option (take len) input1 = map_option (take len) input2"
    and "\<forall>p. input1 = Some p \<longrightarrow> len \<le> length p"
  shows "result (XXH32 input1 len seed) = Some (spec_hash (map_option (take len) input1) seed)
    \<and> result (XXH32 input2 len seed) = result (XXH32 input1 len seed)"
proof (cases input1)
  case None
  with assms(1) have "input2 = None" by simp
  with None show ?thesis by (simp add: XXH32_def spec_hash_def)
next
  case (Some p1)
  with assms(1) obtain p2 where p2: "input2 = Some p2" "take len p1 = take len p2"
    by (cases input2) auto
  from Some assms(2) have l1: "len \<le> length p1" by simp
  have "length (take len p2) = len"
    using p2(2) [symmetric] l1 by simp
  then have l2: "len \<le> length p2" by simp
  from XXH32_refines [OF l1, of seed] XXH32_refines [OF l2, of seed] Some p2
  show ?thesis by simp
qed

theorem prefix_determines_witness:
  "map_option (take 21) (Some test_data) = map_option (take 21) (Some (take 21 test_data @ [0]))
   \<and> 21 \<le> length test_data
   \<and> result (XXH32 (Some (take 21 test_data @ [0])) 21 5) =
       result (XXH32 (Some test_data) 21 5)"
proof -
  have h1: "map_option (take 21) (Some test_data) =
      map_option (take 21) (Some (take 21 test_data @ [0]))"
    using test_data_length_21 by simp
  have h2: "\<forall>p. Some test_data = Some p \<longrightarrow> 21 \<le> length p"
    using test_data_length_21 by simp
  from prefix_determines [OF h1 h2, of 5] h1 test_data_length_21 show ?thesis by blast
qed

text \<open>
  Claim C9. For a buffer of at least \<open>len\<close> bytes the run returns a value and every byte
  it reads is at an index below \<open>len\<close>. The invariant \<open>offset + remaining = len\<close> holds
  when the lane phase hands over to the tail, and in any state that satisfies it and the
  guard of a loop, the body of that loop succeeds, reads only the next 16, 4 or 1 bytes
  from \<open>offset\<close>, and leaves a state that satisfies the invariant again.
\<close>

theorem reads_in_bounds:
  assumes "len \<le> length p"
  shows "(\<exists>h. result (XXH32 (Some p) len seed) = Some h)
    \<and> (\<forall>i \<in> set (loads (trace (XXH32 (Some p) len seed))). i < len)
    \<and> (\<forall>hash offset remaining.
          result (XXH32_lanes p 0 len seed) = Some (hash, offset, remaining) \<longrightarrow>
          offset + remaining = len)
    \<and> (\<forall>lane1 lane2 lane3 lane4 offset remaining.
          offset + remaining = len \<longrightarrow> 16 \<le> remaining \<longrightarrow>
          (\<exists>a b c d. result (bulk_body p lane1 lane2 lane3 lane4 offset remaining) =
             Some (a, b, c, d, offset + 16, remaining - 16))
          \<and> (offset + 16) + (remaining - 16) = len
          \<and> loads (trace (bulk_body p lane1 lane2 lane3 lane4 offset remaining)) =
              [offset..<offset + 16])
    \<and> (\<forall>hash offset remaining.
          offset + remaining = len \<longrightarrow> 4 \<le> remaining \<longrightarrow>
          (\<exists>h. result (word_body p hash offset remaining) =
             Some (h, offset + 4, remaining - 4))
          \<and> (offset + 4) + (remaining - 4) = len
          \<and> loads (trace (word_body p hash offset remaining)) = [offset..<offset + 4])
    \<and> (\<forall>hash offset remaining.
          offset + remaining = len \<longrightarrow> remaining \<noteq> 0 \<longrightarrow>
          (\<exists>h. result (byte_body p hash offset remaining) =
             Some (h, offset + 1, remaining - 1))
          \<and> (offset + 1) + (remaining - 1) = len
          \<and> loads (trace (byte_body p hash offset remaining)) = [offset..<offset + 1])"
proof (intro conjI allI impI)
  note X = XXH32_refines [OF assms, of seed]
  from X show "\<exists>h. result (XXH32 (Some p) len seed) = Some h" by blast
  from X show "\<forall>i \<in> set (loads (trace (XXH32 (Some p) len seed))). i < len" by simp
next
  fix hash offset remaining
  assume "result (XXH32_lanes p 0 len seed) = Some (hash, offset, remaining)"
  with lanes_refines [OF assms, of seed] show "offset + remaining = len" by simp
next
  fix lane1 lane2 lane3 lane4 :: u32 and offset remaining :: nat
  assume inv: "offset + remaining = len" and g: "16 \<le> remaining"
  with assms have inb: "offset + 16 \<le> length p" by simp
  note B = bulk_body_in_bounds [OF inb, of lane1 lane2 lane3 lane4 remaining]
  show "\<exists>a b c d. result (bulk_body p lane1 lane2 lane3 lane4 offset remaining) =
      Some (a, b, c, d, offset + 16, remaining - 16)"
    by (simp add: B result_def)
  show "(offset + 16) + (remaining - 16) = len" using inv g by simp
  show "loads (trace (bulk_body p lane1 lane2 lane3 lane4 offset remaining)) =
      [offset..<offset + 16]"
    by (simp add: B trace_def upt16)
next
  fix hash :: u32 and offset remaining :: nat
  assume inv: "offset + remaining = len" and g: "4 \<le> remaining"
  with assms have inb: "offset + 4 \<le> length p" by simp
  note B = word_body_in_bounds [OF inb, of hash remaining]
  show "\<exists>h. result (word_body p hash offset remaining) = Some (h, offset + 4, remaining - 4)"
    by (simp add: B result_def)
  show "(offset + 4) + (remaining - 4) = len" using inv g by simp
  show "loads (trace (word_body p hash offset remaining)) = [offset..<offset + 4]"
    by (simp add: B trace_def upt4)
next
  fix hash :: u32 and offset remaining :: nat
  assume inv: "offset + remaining = len" and g: "remaining \<noteq> 0"
  with assms have inb: "offset < length p" by simp
  note B = byte_body_in_bounds [OF inb, of hash remaining]
  show "\<exists>h. result (byte_body p hash offset remaining) = Some (h, offset + 1, remaining - 1)"
    by (simp add: B result_def)
  show "(offset + 1) + (remaining - 1) = len" using inv g by simp
  show "loads (trace (byte_body p hash offset remaining)) = [offset..<offset + 1]"
    by (simp add: B trace_def)
qed

theorem reads_in_bounds_witness:
  "(21::nat) \<le> length test_data
   \<and> (\<exists>h. result (XXH32 (Some test_data) 21 0) = Some h)
   \<and> result (XXH32_lanes test_data 0 21 0) = Some (1371011455, 16, 5)
   \<and> (16::nat) + 5 = 21
   \<and> (0::nat) + 21 = 21 \<and> (16::nat) \<le> 21
   \<and> loads (trace (bulk_body test_data 1 2 3 4 0 21)) = [0..<0 + 16]
   \<and> (4::nat) \<le> 5
   \<and> loads (trace (word_body test_data 7 16 5)) = [16..<16 + 4]
   \<and> (20::nat) + 1 = 21 \<and> (0::nat) < 1
   \<and> loads (trace (byte_body test_data 7 20 1)) = [20..<20 + 1]"
proof -
  have h: "(21::nat) \<le> length test_data" by (rule test_data_length_21)
  have l: "result (XXH32_lanes test_data 0 21 0) = Some (1371011455, 16, 5)"
    by code_simp
  note R = reads_in_bounds [OF h, of 0]
  from R have a: "\<exists>h. result (XXH32 (Some test_data) 21 0) = Some h" by blast
  from R have c: "\<forall>lane1 lane2 lane3 lane4 offset remaining.
          offset + remaining = 21 \<longrightarrow> 16 \<le> remaining \<longrightarrow>
          loads (trace (bulk_body test_data lane1 lane2 lane3 lane4 offset remaining)) =
              [offset..<offset + 16]" by blast
  from R have d: "\<forall>hash offset remaining.
          offset + remaining = 21 \<longrightarrow> 4 \<le> remaining \<longrightarrow>
          loads (trace (word_body test_data hash offset remaining)) = [offset..<offset + 4]"
    by blast
  from R have e: "\<forall>hash offset remaining.
          offset + remaining = 21 \<longrightarrow> remaining \<noteq> 0 \<longrightarrow>
          loads (trace (byte_body test_data hash offset remaining)) = [offset..<offset + 1]"
    by blast
  have c': "loads (trace (bulk_body test_data 1 2 3 4 0 21)) = [0..<0 + 16]"
    using c [rule_format, of 0 21 1 2 3 4] by simp
  have d': "loads (trace (word_body test_data 7 16 5)) = [16..<16 + 4]"
    using d [rule_format, of 16 5 7] by simp
  have e': "loads (trace (byte_body test_data 7 20 1)) = [20..<20 + 1]"
    using e [rule_format, of 20 1 7] by simp
  from h a l c' d' e' show ?thesis by simp
qed

text \<open>
  Claim C10. For an amount from 1 to 31, \<^verbatim>\<open>XXH_rotl32\<close> is defined and is the circular
  left rotation by that amount. Every call of \<^verbatim>\<open>XXH_rotl32\<close> made by a run of \<^verbatim>\<open>XXH32\<close>,
  on any input, has its amount among 1, 7, 11, 12, 13, 17 and 18, all of which lie
  between 1 and 31, so that no shift by 32 bits or more is ever evaluated.
\<close>

theorem rotl_amounts:
  "(1 \<le> unat amount \<and> unat amount \<le> 31 \<longrightarrow>
      XXH_rotl32 val amount = ([Rotl amount], Some (word_rotl (unat amount) val)))
   \<and> set (rotls (trace (XXH32 input len seed))) \<subseteq> {1, 7, 11, 12, 13, 17, 18}
   \<and> (\<forall>a \<in> {1, 7, 11, 12, 13, 17, 18 :: u32}. 1 \<le> unat a \<and> unat a \<le> 31)"
proof (intro conjI impI)
  assume "1 \<le> unat amount \<and> unat amount \<le> 31"
  then have "0 < unat amount" "unat amount < 32" by simp_all
  then show "XXH_rotl32 val amount = ([Rotl amount], Some (word_rotl (unat amount) val))"
    by (simp add: rotl_defined spec_rotate_left_def)
next
  show "set (rotls (trace (XXH32 input len seed))) \<subseteq> {1, 7, 11, 12, 13, 17, 18}"
    by (rule rotls_trace_XXH32)
next
  show "\<forall>a \<in> {1, 7, 11, 12, 13, 17, 18 :: u32}. 1 \<le> unat a \<and> unat a \<le> 31"
    by simp
qed

theorem rotl_amounts_witness:
  "1 \<le> unat (13 :: u32) \<and> unat (13 :: u32) \<le> 31
   \<and> XXH_rotl32 1 13 = ([Rotl 13], Some (word_rotl (unat (13 :: u32)) 1))
   \<and> set (rotls (trace (XXH32 (Some test_data) 21 0))) \<subseteq> {1, 7, 11, 12, 13, 17, 18}
   \<and> (13 :: u32) \<in> {1, 7, 11, 12, 13, 17, 18}
   \<and> 1 \<le> unat (13 :: u32)"
proof -
  have h: "1 \<le> unat (13 :: u32) \<and> unat (13 :: u32) \<le> 31" by simp
  have m: "(13 :: u32) \<in> {1, 7, 11, 12, 13, 17, 18}" by simp
  from rotl_amounts [of 13 1 "Some test_data" 21 0] h m show ?thesis by blast
qed

end
